theory Spec2Isabelle
  imports Complex_Main
begin

section \<open>The token bucket limiter\<close>

text \<open>
  The middleware of \<^verbatim>\<open>ratelimit.go\<close> keeps one \<^verbatim>\<open>*rate.Limiter\<close> per key. The type comes
  from the package \<^verbatim>\<open>golang.org/x/time/rate\<close>, which is imported and not part of the
  repository's sources, so the limiter below follows section 4.1 of the specification.
  Token counts are exact rationals (the specification's float), a time is a number of
  nanoseconds since the zero time, and a rate is a finite number of tokens per second.
\<close>

record Limiter =
  rate :: rat
  burst :: int
  tokens :: rat
  last_refill :: nat

definition seconds :: "int \<Rightarrow> rat" where
  "seconds d = of_int d / 1000000000"

text \<open>
  Modelled from the spec: \<^verbatim>\<open>rate.NewLimiter\<close> (package golang.org/x/time/rate, absent
  from the sources). The specification names the four attributes of a limiter and gives
  no initial token count. The bucket is created full: the burst is the number of requests
  that are admissible with no intervening refill, and the repository's tests expect the
  request that creates a limiter of burst 1 to be admitted. The last-refill timestamp
  starts at the zero time, as the call takes no clock reading.
\<close>

definition NewLimiter :: "rat \<Rightarrow> int \<Rightarrow> Limiter" where
  "NewLimiter r b = \<lparr>rate = r, burst = b, tokens = of_int b, last_refill = 0\<rparr>"

text \<open>
  Modelled from the spec: the refill step of \<^verbatim>\<open>Allow\<close> (package golang.org/x/time/rate,
  absent from the sources): the elapsed time since the last refill, times the rate, is
  added to the token count, and the sum is capped at the burst.
\<close>

definition refill :: "nat \<Rightarrow> Limiter \<Rightarrow> rat" where
  "refill now l =
     (let elapsed = seconds (int now - int (last_refill l))
      in min (tokens l + elapsed * rate l) (of_int (burst l)))"

text \<open>
  Modelled from the spec: \<^verbatim>\<open>(*rate.Limiter).Allow\<close> (package golang.org/x/time/rate,
  absent from the sources). The clock reading \<open>now\<close> is an argument. The limiter is
  refilled and its timestamp set to \<open>now\<close>; with at least one token the call takes one
  and admits, otherwise it takes nothing and rejects.
\<close>

definition Allow :: "nat \<Rightarrow> Limiter \<Rightarrow> bool \<times> Limiter" where
  "Allow now l =
     (let l1 = l\<lparr>tokens := refill now l, last_refill := now\<rparr>
      in if 1 \<le> tokens l1 then (True, l1\<lparr>tokens := tokens l1 - 1\<rparr>) else (False, l1))"

text \<open>Calls of \<open>Allow\<close> on one limiter, one after the other, at the given clock readings.\<close>

fun AllowSeq :: "nat list \<Rightarrow> Limiter \<Rightarrow> bool list \<times> Limiter" where
  "AllowSeq [] l = ([], l)"
| "AllowSeq (t # ts) l =
     (case Allow t l of (ok, l') \<Rightarrow>
        (case AllowSeq ts l' of (oks, l'') \<Rightarrow> (ok # oks, l'')))"

section \<open>The stores\<close>

text \<open>
  A \<^verbatim>\<open>*rate.Limiter\<close> is an address in a heap of limiters, or nil. The interface
  \<^verbatim>\<open>Store\<close> is an object with the two methods \<^verbatim>\<open>Get\<close> and \<^verbatim>\<open>Set\<close>; \<open>Set\<close> returns the
  object after the call.
\<close>

type_synonym limiter_ptr = "nat option"

codatatype Store =
  Impl (Get: "string \<Rightarrow> limiter_ptr \<times> bool") (Set: "string \<Rightarrow> limiter_ptr \<Rightarrow> Store")

text \<open>
  \<^verbatim>\<open>memoryStore\<close>: a Go map from keys to limiter pointers. Reading a missing key of a Go
  map gives the zero value (nil) and \<^verbatim>\<open>false\<close>. The lock does not show in a sequential run.
\<close>

primcorec memoryStore :: "(string \<rightharpoonup> limiter_ptr) \<Rightarrow> Store" where
  "Get (memoryStore limiters) =
     (\<lambda>key. case limiters key of None \<Rightarrow> (None, False) | Some limiter \<Rightarrow> (limiter, True))"
| "Set (memoryStore limiters) = (\<lambda>key limiter. memoryStore (limiters(key \<mapsto> limiter)))"

definition newMemoryStore :: Store where
  "newMemoryStore = memoryStore Map.empty"

text \<open>\<^verbatim>\<open>redisStore\<close> of \<^verbatim>\<open>redis.go\<close>: \<open>Get\<close> returns \<^verbatim>\<open>nil, false\<close>, and \<open>Set\<close> has an empty body.\<close>

primcorec redisStore :: Store where
  "Get redisStore = (\<lambda>key. (None, False))"
| "Set redisStore = (\<lambda>key limiter. redisStore)"

definition NewRedisStore :: "'client \<Rightarrow> Store" where
  "NewRedisStore client = redisStore"

text \<open>A sequence of \<open>Set\<close> calls on a store, in the order of the list.\<close>

fun SetAll :: "(string \<times> limiter_ptr) list \<Rightarrow> Store \<Rightarrow> Store" where
  "SetAll [] s = s"
| "SetAll ((key, limiter) # kvs) s = SetAll kvs (Set s key limiter)"

section \<open>The middleware\<close>

text \<open>
  The part of a \<^verbatim>\<open>gin.Context\<close> that the middleware and its default handlers read and
  write: the client address that \<^verbatim>\<open>c.ClientIP()\<close> returns, the response written so far, and
  whether the chain of handlers was aborted. The framework (package
  github.com/gin-gonic/gin) is imported and not part of the repository's sources.
\<close>

record Context =
  ClientIP :: string
  status :: nat
  contentType :: string
  body :: string
  aborted :: bool

text \<open>
  Modelled from the spec: \<^verbatim>\<open>http.StatusTooManyRequests\<close> (package net/http, absent from the
  sources), the client-error status for too many requests; the comment on
  \<^verbatim>\<open>OnLimitExceeded\<close> in \<^verbatim>\<open>ratelimit.go\<close> gives its number.
\<close>

definition StatusTooManyRequests :: nat where
  "StatusTooManyRequests = 429"

text \<open>
  Modelled from the spec: \<^verbatim>\<open>(*gin.Context).String\<close> (package gin, absent from the sources):
  it writes a response with the given status and a plain-text message.
\<close>

definition String :: "nat \<Rightarrow> string \<Rightarrow> Context \<Rightarrow> Context" where
  "String code msg c =
     c\<lparr>status := code, contentType := ''text/plain; charset=utf-8'', body := body c @ msg\<rparr>"

text \<open>
  Modelled from the spec: \<^verbatim>\<open>(*gin.Context).Abort\<close> (package gin, absent from the sources):
  it halts the pipeline, so that no handler that is still pending runs.
\<close>

definition Abort :: "Context \<Rightarrow> Context" where
  "Abort c = c\<lparr>aborted := True\<rparr>"

text \<open>\<^verbatim>\<open>Options\<close>: a nil function or a nil store is \<open>None\<close>.\<close>

record Options =
  Rate :: rat
  Burst :: int
  KeyFunc :: "(Context \<Rightarrow> string) option"
  Store :: "Store option"
  OnLimitExceeded :: "(Context \<Rightarrow> Limiter \<Rightarrow> Context) option"

text \<open>
  What the closure returned by \<^verbatim>\<open>New\<close> captures: the options after the defaults were
  filled in. The reject handler reads the limiter it is given and writes to the context.
\<close>

record Middleware =
  opts_Rate :: rat
  opts_Burst :: int
  opts_KeyFunc :: "Context \<Rightarrow> string"
  opts_Store :: Store
  opts_OnLimitExceeded :: "Context \<Rightarrow> Limiter \<Rightarrow> Context"

definition New :: "Options \<Rightarrow> Middleware" where
  "New opts =
     \<lparr>opts_Rate = Rate opts,
      opts_Burst = Burst opts,
      opts_KeyFunc = (case KeyFunc opts of None \<Rightarrow> (\<lambda>c. ClientIP c) | Some f \<Rightarrow> f),
      opts_Store = (case Store opts of None \<Rightarrow> newMemoryStore | Some s \<Rightarrow> s),
      opts_OnLimitExceeded =
        (case OnLimitExceeded opts of
           None \<Rightarrow> (\<lambda>c l. String StatusTooManyRequests ''Too Many Requests'' c)
         | Some f \<Rightarrow> f)\<rparr>"

text \<open>
  The state that requests share: the heap of limiters and the store object. A middleware
  starts with the store it was given and, here, with no limiter allocated.
\<close>

record State =
  heap :: "Limiter list"
  store :: Store

definition initState :: "Middleware \<Rightarrow> State" where
  "initState mw = \<lparr>heap = [], store = opts_Store mw\<rparr>"

datatype panic = NilPointerDereference

text \<open>
  Following a pointer: the address and the limiter there, or nothing for nil (and for an
  address outside the heap, which no Go pointer is).
\<close>

definition deref :: "limiter_ptr \<Rightarrow> Limiter list \<Rightarrow> (nat \<times> Limiter) option" where
  "deref p h =
     (case p of None \<Rightarrow> None
      | Some a \<Rightarrow> if a < length h then Some (a, h ! a) else None)"

text \<open>
  The handler that \<^verbatim>\<open>New\<close> returns, run on one request. \<open>downstream\<close> is the rest of
  the chain of handlers, which \<^verbatim>\<open>c.Next()\<close> runs; \<open>now\<close> is the clock reading of \<open>Allow\<close>. The
  result tells whether \<^verbatim>\<open>c.Next()\<close> was reached, and gives the context and the state after
  the request. The rest of the chain and the reject handler act on the context only.
  Calling \<open>Allow\<close> through a nil pointer panics.
\<close>

definition handler ::
  "Middleware \<Rightarrow> (Context \<Rightarrow> Context) \<Rightarrow> nat \<Rightarrow> Context \<Rightarrow> State
     \<Rightarrow> panic + (bool \<times> Context \<times> State)" where
  "handler opts downstream now c s =
     (let key = opts_KeyFunc opts c in
      case Get (store s) key of (limiter, exists) \<Rightarrow>
        (case (if \<not> exists
               then (Some (length (heap s)),
                     \<lparr>heap = heap s @ [NewLimiter (opts_Rate opts) (opts_Burst opts)],
                      store = Set (store s) key (Some (length (heap s)))\<rparr>)
               else (limiter, s)) of (limiter, s) \<Rightarrow>
           (case deref limiter (heap s) of
              None \<Rightarrow> Inl NilPointerDereference
            | Some (a, l) \<Rightarrow>
                (case Allow now l of (ok, l') \<Rightarrow>
                   if \<not> ok
                   then Inr (False, Abort (opts_OnLimitExceeded opts c l'),
                             s\<lparr>heap := (heap s)[a := l']\<rparr>)
                   else Inr (True, downstream c, s\<lparr>heap := (heap s)[a := l']\<rparr>)))))"

text \<open>Requests served one after the other; a panic stops the run.\<close>

fun serve ::
  "Middleware \<Rightarrow> (Context \<Rightarrow> Context) \<Rightarrow> (nat \<times> Context) list \<Rightarrow> State
     \<Rightarrow> panic + ((bool \<times> Context) list \<times> State)" where
  "serve opts downstream [] s = Inr ([], s)"
| "serve opts downstream ((now, c) # reqs) s =
     (case handler opts downstream now c s of
        Inl e \<Rightarrow> Inl e
      | Inr (ok, c', s') \<Rightarrow>
          (case serve opts downstream reqs s' of
             Inl e \<Rightarrow> Inl e
           | Inr (rs, s'') \<Rightarrow> Inr ((ok, c') # rs, s'')))"

text \<open>The limiter that the store holds under a key, read through the heap.\<close>

definition limiterFor :: "State \<Rightarrow> string \<Rightarrow> Limiter option" where
  "limiterFor s key =
     (case Get (store s) key of (limiter, exists) \<Rightarrow>
        if exists then map_option snd (deref limiter (heap s)) else None)"

text \<open>What a client sees of one request, and of a run: the decisions and the contexts.\<close>

definition outcome :: "panic + (bool \<times> Context \<times> State) \<Rightarrow> (bool \<times> Context) option" where
  "outcome r = (case r of Inl e \<Rightarrow> None | Inr (ok, c, s) \<Rightarrow> Some (ok, c))"

definition decisions :: "panic + ((bool \<times> Context) list \<times> State) \<Rightarrow> bool list option" where
  "decisions r = (case r of Inl e \<Rightarrow> None | Inr (rs, s) \<Rightarrow> Some (map fst rs))"

text \<open>
  The states of a middleware that runs on the in-memory store: the store is the map \<open>m\<close>,
  every pointer in it is the address of a limiter in the heap, and no two keys share one.
\<close>

definition memState :: "(string \<rightharpoonup> limiter_ptr) \<Rightarrow> State \<Rightarrow> bool" where
  "memState m s \<longleftrightarrow>
     store s = memoryStore m \<and>
     (\<forall>k p. m k = Some p \<longrightarrow> (\<exists>a. p = Some a \<and> a < length (heap s))) \<and>
     inj_on m (dom m)"

section \<open>Properties of the limiter\<close>

lemma Allow_eq:
  "Allow now l =
     (1 \<le> refill now l,
      l\<lparr>tokens := (if 1 \<le> refill now l then refill now l - 1 else refill now l),
        last_refill := now\<rparr>)"
  by (simp add: Allow_def Let_def)

lemma Allow_fields [simp]:
  "rate (snd (Allow now l)) = rate l"
  "burst (snd (Allow now l)) = burst l"
  "last_refill (snd (Allow now l)) = now"
  by (simp_all add: Allow_eq)

lemma AllowSeq_Cons:
  "AllowSeq (t # ts) l =
     (fst (Allow t l) # fst (AllowSeq ts (snd (Allow t l))), snd (AllowSeq ts (snd (Allow t l))))"
  by (simp split: prod.split)

declare AllowSeq.simps(2) [simp del]
declare AllowSeq_Cons [simp]

lemma AllowSeq_rate_burst:
  "rate (snd (AllowSeq ts l)) = rate l \<and> burst (snd (AllowSeq ts l)) = burst l"
  by (induction ts arbitrary: l) (simp_all add: AllowSeq_Cons)

lemma AllowSeq_NewLimiter_rate_burst:
  "rate (snd (AllowSeq ts (NewLimiter r b))) = r \<and> burst (snd (AllowSeq ts (NewLimiter r b))) = b"
  by (simp add: AllowSeq_rate_burst NewLimiter_def)

text \<open>
  Claim C1. A limiter created with rate \<open>r\<close> and burst \<open>b\<close>, after any calls, answers a
  call of \<open>Allow\<close> at time \<open>now\<close> as follows: with \<open>t\<close> the token count plus the elapsed
  time since the last refill times \<open>r\<close>, capped at \<open>b\<close>, the call returns true exactly
  when \<open>t\<close> is at least 1, it leaves \<open>t - 1\<close> tokens when it returns true and \<open>t\<close>
  tokens when it returns false, and it sets the last-refill timestamp to \<open>now\<close>.
\<close>

theorem Allow_contract:
  "(let l = snd (AllowSeq ts (NewLimiter r b));
        elapsed = seconds (int now - int (last_refill l));
        t = min (tokens l + elapsed * r) (of_int b)
    in Allow now l =
         (1 \<le> t, l\<lparr>tokens := (if 1 \<le> t then t - 1 else t), last_refill := now\<rparr>))"
  using AllowSeq_NewLimiter_rate_burst [of ts r b]
  by (simp add: Let_def Allow_eq refill_def)

lemma refill_le_burst: "refill now l \<le> of_int (burst l)"
  by (simp add: refill_def Let_def)

lemma refill_same_time: "last_refill l = now \<Longrightarrow> refill now l = min (tokens l) (of_int (burst l))"
  by (simp add: refill_def seconds_def)

lemma admitted_same_time:
  "last_refill l = now \<Longrightarrow> tokens l \<le> of_int k \<Longrightarrow>
   length (filter (\<lambda>ok. ok) (fst (AllowSeq (replicate n now) l))) \<le> nat k"
proof (induction n arbitrary: l k)
  case 0
  show ?case by simp
next
  case (Suc n)
  let ?l' = "snd (Allow now l)"
  have r: "refill now l \<le> of_int k"
    using Suc.prems by (simp add: refill_same_time)
  have lr: "last_refill ?l' = now" by simp
  show ?case
  proof (cases "1 \<le> refill now l")
    case True
    then have "tokens ?l' \<le> of_int (k - 1)"
      using r by (simp add: Allow_eq)
    from Suc.IH [OF lr this]
    have "length (filter (\<lambda>ok. ok) (fst (AllowSeq (replicate n now) ?l'))) \<le> nat (k - 1)" .
    moreover have "1 \<le> k"
    proof -
      have "(of_int 1 :: rat) \<le> of_int k" using True r by simp
      then show ?thesis by (simp only: of_int_le_iff)
    qed
    ultimately show ?thesis
      using True by (simp add: AllowSeq_Cons Allow_eq)
  next
    case False
    then have "tokens ?l' \<le> of_int k"
      using r by (simp add: Allow_eq)
    from Suc.IH [OF lr this] False show ?thesis
      by (simp add: AllowSeq_Cons Allow_eq)
  qed
qed

lemma length_AllowSeq: "length (fst (AllowSeq ts l)) = length ts"
  by (induction ts arbitrary: l) (simp_all add: AllowSeq_Cons)

lemma admitted_le_burst:
  "length (filter (\<lambda>ok. ok) (fst (AllowSeq (replicate n now) l))) \<le> nat (burst l)"
proof (cases n)
  case 0
  then show ?thesis by simp
next
  case (Suc m)
  let ?l' = "snd (Allow now l)"
  have lr: "last_refill ?l' = now" by simp
  have r: "refill now l \<le> of_int (burst l)" by (rule refill_le_burst)
  show ?thesis
  proof (cases "1 \<le> refill now l")
    case True
    then have "tokens ?l' \<le> of_int (burst l - 1)"
      using r by (simp add: Allow_eq)
    from admitted_same_time [OF lr this]
    have "length (filter (\<lambda>ok. ok) (fst (AllowSeq (replicate m now) ?l'))) \<le> nat (burst l - 1)" .
    moreover have "1 \<le> burst l"
    proof -
      have "(of_int 1 :: rat) \<le> of_int (burst l)" using True r by simp
      then show ?thesis by (simp only: of_int_le_iff)
    qed
    ultimately show ?thesis
      using True by (simp add: Suc AllowSeq_Cons Allow_eq)
  next
    case False
    then have "tokens ?l' \<le> of_int (burst l)"
      using r by (simp add: Allow_eq)
    from admitted_same_time [OF lr this] False show ?thesis
      by (simp add: Suc AllowSeq_Cons Allow_eq)
  qed
qed

text \<open>
  Claim C2. When no time elapses between the calls (all of them read the clock at
  \<open>now\<close>), a limiter with burst \<open>B\<close> admits at most \<open>B\<close> of any number of calls of
  \<open>Allow\<close>, and of \<open>B + 1\<close> calls at least one returns false.
\<close>

theorem burst_bound:
  "length (filter (\<lambda>ok. ok) (fst (AllowSeq (replicate n now) l))) \<le> nat (burst l) \<and>
   False \<in> set (fst (AllowSeq (replicate (Suc (nat (burst l))) now) l))"
proof
  show "length (filter (\<lambda>ok. ok) (fst (AllowSeq (replicate n now) l))) \<le> nat (burst l)"
    by (rule admitted_le_burst)
next
  let ?oks = "fst (AllowSeq (replicate (Suc (nat (burst l))) now) l)"
  have "length (filter (\<lambda>ok. ok) ?oks) \<le> nat (burst l)"
    by (rule admitted_le_burst)
  moreover have "length ?oks = Suc (nat (burst l))"
    by (simp only: length_AllowSeq length_replicate)
  ultimately have "length (filter (\<lambda>ok. ok) ?oks) \<noteq> length ?oks" by linarith
  then have "\<not> (\<forall>ok \<in> set ?oks. ok)"
    by (metis filter_True)
  then show "False \<in> set ?oks" by auto
qed


lemma seconds_nonneg: "0 \<le> d \<Longrightarrow> 0 \<le> seconds d"
  by (simp add: seconds_def)

lemma refill_nonneg:
  assumes "0 \<le> tokens l" and "0 \<le> rate l" and "0 \<le> burst l" and "last_refill l \<le> now"
  shows "0 \<le> refill now l"
proof -
  have "0 \<le> seconds (int now - int (last_refill l))"
    using assms(4) by (simp add: seconds_nonneg)
  then have "0 \<le> seconds (int now - int (last_refill l)) * rate l"
    using assms(2) by simp
  then show ?thesis
    using assms(1,3) by (simp add: refill_def Let_def)
qed

lemma Allow_tokens_range:
  assumes "0 \<le> tokens l" and "0 \<le> rate l" and "0 \<le> burst l" and "last_refill l \<le> now"
  shows "0 \<le> tokens (snd (Allow now l)) \<and> tokens (snd (Allow now l)) \<le> of_int (burst l)"
  using refill_nonneg [OF assms] refill_le_burst [of now l]
  by (simp add: Allow_eq)

lemma AllowSeq_tokens_range:
  assumes "0 \<le> tokens l" and "0 \<le> rate l" and "0 \<le> burst l"
    and "sorted (last_refill l # ts)"
  shows "0 \<le> tokens (snd (AllowSeq ts l)) \<and>
         last_refill (snd (AllowSeq ts l)) = last (last_refill l # ts)"
  using assms
proof (induction ts arbitrary: l)
  case Nil
  then show ?case by simp
next
  case (Cons t ts)
  let ?l' = "snd (Allow t l)"
  have le: "last_refill l \<le> t" using Cons.prems(4) by simp
  have "0 \<le> tokens ?l'"
    using Allow_tokens_range [OF Cons.prems(1,2,3) le] by simp
  moreover have "0 \<le> rate ?l'" "0 \<le> burst ?l'"
    using Cons.prems(2,3) by simp_all
  moreover have "sorted (last_refill ?l' # ts)"
    using Cons.prems(4) by simp
  ultimately have "0 \<le> tokens (snd (AllowSeq ts ?l')) \<and>
      last_refill (snd (AllowSeq ts ?l')) = last (last_refill ?l' # ts)"
    by (rule Cons.IH)
  then show ?case by simp
qed

text \<open>
  Claim C5. For a limiter created with rate \<open>r\<close> and burst \<open>b\<close>, at every call of
  \<open>Allow\<close>: the count after the refill is at most \<open>b\<close>, and so is the count after the
  call; the call admits exactly when the refilled count is at least 1 and then takes
  exactly one token, so that the count is not negative after an admission. With a rate and
  a burst that are not negative and clock readings that do not decrease, the count is in
  \<open>[0, b]\<close> after every call, admitted or not.
\<close>

theorem token_count_bounds:
  "(let l = snd (AllowSeq ts (NewLimiter r b));
        t = refill now l;
        ok = fst (Allow now l);
        l' = snd (Allow now l)
    in t \<le> of_int b \<and> ok = (1 \<le> t) \<and> tokens l' = (if ok then t - 1 else t) \<and>
       tokens l' \<le> of_int b \<and> (ok \<longrightarrow> 0 \<le> tokens l') \<and>
       (0 \<le> r \<and> 0 \<le> b \<and> sorted (ts @ [now]) \<longrightarrow> 0 \<le> tokens l'))"
proof -
  let ?l = "snd (AllowSeq ts (NewLimiter r b))"
  have rb: "rate ?l = r" "burst ?l = b"
    using AllowSeq_NewLimiter_rate_burst [of ts r b] by simp_all
  have cap: "refill now ?l \<le> of_int b"
    using refill_le_burst [of now ?l] by (simp add: rb)
  have range: "0 \<le> tokens (snd (Allow now ?l))"
    if "0 \<le> r" and "0 \<le> b" and "sorted (ts @ [now])"
  proof -
    have srt: "sorted (last_refill (NewLimiter r b) # ts)"
      using that(3) by (simp add: NewLimiter_def sorted_append)
    have "0 \<le> tokens ?l \<and> last_refill ?l = last (last_refill (NewLimiter r b) # ts)"
      using that(1,2) srt by (intro AllowSeq_tokens_range) (simp_all add: NewLimiter_def)
    moreover have "last (last_refill (NewLimiter r b) # ts) \<le> now"
      using that(3) by (cases ts rule: rev_cases) (simp_all add: NewLimiter_def sorted_append)
    ultimately have pre: "0 \<le> tokens ?l" "last_refill ?l \<le> now" by simp_all
    show ?thesis
      using Allow_tokens_range [of ?l now] pre that(1,2) by (simp add: rb)
  qed
  have "tokens (snd (Allow now ?l)) \<le> of_int b"
    using cap by (simp add: Allow_eq)
  moreover have "fst (Allow now ?l) \<longrightarrow> 0 \<le> tokens (snd (Allow now ?l))"
    by (simp add: Allow_eq)
  ultimately show ?thesis
    using cap range by (simp add: Let_def Allow_eq)
qed

theorem token_count_bounds_witness:
  "(0::rat) \<le> 100 \<and> (0::int) \<le> 1 \<and> sorted ([0, 0] @ [10000000::nat]) \<and>
   Allow 10000000 (snd (AllowSeq [0, 0] (NewLimiter 100 1))) =
     (True, \<lparr>rate = 100, burst = 1, tokens = 0, last_refill = 10000000\<rparr>) \<and>
   fst (AllowSeq [0, 0] (NewLimiter 100 1)) = [True, False]"
  using token_count_bounds [where r = 100 and b = 1 and ts = "[0, 0]" and now = 10000000]
  by (simp add: NewLimiter_def Allow_eq refill_def seconds_def)

section \<open>The in-memory store is a mapping\<close>

lemma SetAll_memoryStore: "SetAll kvs (memoryStore m) = memoryStore (m ++ map_of (rev kvs))"
proof (induction kvs arbitrary: m)
  case Nil
  show ?case by simp
next
  case (Cons kv kvs)
  obtain k' l' where kv: "kv = (k', l')" by (cases kv)
  have "SetAll (kv # kvs) (memoryStore m) = SetAll kvs (memoryStore (m(k' \<mapsto> l')))"
    by (simp add: kv)
  also have "\<dots> = memoryStore (m(k' \<mapsto> l') ++ map_of (rev kvs))"
    by (rule Cons.IH)
  also have "m(k' \<mapsto> l') ++ map_of (rev kvs) = m ++ map_of (rev (kv # kvs))"
    by (rule ext) (simp add: kv map_add_def split: option.split)
  finally show ?case .
qed

lemma map_of_other_keys: "map_of (rev (filter (\<lambda>kv. fst kv \<noteq> k) kvs)) k = None"
  by (simp add: map_of_eq_None_iff image_iff)

lemma Get_after_other_keys:
  "Get (SetAll (filter (\<lambda>kv. fst kv \<noteq> k) kvs) (memoryStore m)) k = Get (memoryStore m) k"
  by (simp add: SetAll_memoryStore map_add_def map_of_other_keys)

text \<open>
  Claim C6. The in-memory store is a mapping with unique keys. After \<open>Set k l\<close> and any
  \<open>Set\<close> calls on other keys, \<open>Get k\<close> returns \<open>l\<close> and found = true. A later
  \<open>Set k l'\<close> overwrites: \<open>Get k\<close> then returns \<open>l'\<close> and found = true. On a store
  where \<open>k\<close> was never set, \<open>Get k\<close> returns found = false. In general, after any
  sequence of \<open>Set\<close> calls on a new store, \<open>Get k\<close> returns the limiter of the last
  call on \<open>k\<close>.
\<close>

theorem memoryStore_mapping:
  "Get (SetAll (filter (\<lambda>kv. fst kv \<noteq> k) later) (Set (memoryStore m) k l)) k = (l, True) \<and>
   Get (SetAll (filter (\<lambda>kv. fst kv \<noteq> k) later)
          (Set (SetAll between (Set (memoryStore m) k l)) k l')) k = (l', True) \<and>
   Get (SetAll (filter (\<lambda>kv. fst kv \<noteq> k) kvs) newMemoryStore) k = (None, False) \<and>
   Get (SetAll kvs newMemoryStore) k =
     (case map_of (rev kvs) k of None \<Rightarrow> (None, False) | Some l \<Rightarrow> (l, True))"
proof (intro conjI)
  show "Get (SetAll (filter (\<lambda>kv. fst kv \<noteq> k) later) (Set (memoryStore m) k l)) k = (l, True)"
    by (simp add: Get_after_other_keys)
next
  have "SetAll between (Set (memoryStore m) k l) =
          memoryStore (m(k \<mapsto> l) ++ map_of (rev between))"
    by (simp add: SetAll_memoryStore)
  then show "Get (SetAll (filter (\<lambda>kv. fst kv \<noteq> k) later)
          (Set (SetAll between (Set (memoryStore m) k l)) k l')) k = (l', True)"
    by (simp add: Get_after_other_keys)
next
  show "Get (SetAll (filter (\<lambda>kv. fst kv \<noteq> k) kvs) newMemoryStore) k = (None, False)"
    by (simp add: newMemoryStore_def Get_after_other_keys)
next
  show "Get (SetAll kvs newMemoryStore) k =
     (case map_of (rev kvs) k of None \<Rightarrow> (None, False) | Some l \<Rightarrow> (l, True))"
    by (simp add: newMemoryStore_def SetAll_memoryStore)
qed

text \<open>
  Claim C9. The Redis-backed store keeps nothing: \<open>Get\<close> returns nil and found = false
  for every key, and \<open>Set\<close> leaves the store as it was.
\<close>

theorem redisStore_no_persistence:
  "Get (NewRedisStore client) key = (None, False) \<and>
   Set (NewRedisStore client) key limiter = NewRedisStore client \<and>
   Get (SetAll kvs (NewRedisStore client)) key = (None, False)"
proof -
  have "SetAll kvs redisStore = redisStore"
    by (induction kvs) auto
  then show ?thesis
    by (simp add: NewRedisStore_def)
qed

section \<open>Properties of the middleware\<close>

lemma handler_miss:
  assumes "Get (store s) (opts_KeyFunc mw c) = (p, False)"
  shows "handler mw d now c s =
     (let l = NewLimiter (opts_Rate mw) (opts_Burst mw);
          ok = fst (Allow now l);
          l' = snd (Allow now l)
      in Inr (ok, if ok then d c else Abort (opts_OnLimitExceeded mw c l'),
              \<lparr>heap = heap s @ [l'],
               store = Set (store s) (opts_KeyFunc mw c) (Some (length (heap s)))\<rparr>))"
  using assms by (simp add: handler_def deref_def Let_def split: prod.split)

lemma handler_hit:
  assumes "Get (store s) (opts_KeyFunc mw c) = (Some a, True)" and "a < length (heap s)"
  shows "handler mw d now c s =
     (let l = heap s ! a;
          ok = fst (Allow now l);
          l' = snd (Allow now l)
      in Inr (ok, if ok then d c else Abort (opts_OnLimitExceeded mw c l'),
              s\<lparr>heap := (heap s)[a := l']\<rparr>))"
  using assms by (simp add: handler_def deref_def Let_def split: prod.split)

lemma New_sel:
  "opts_Rate (New opts) = Rate opts"
  "opts_Burst (New opts) = Burst opts"
  by (simp_all add: New_def)


text \<open>
  Claim C7. With a nil key function the key is the client's address, with a nil store the
  middleware runs on a new in-memory store, and with a nil reject handler a rejected
  request gets the status 429 and the plain-text message \<^verbatim>\<open>Too Many Requests\<close>.
\<close>

theorem New_defaults:
  "opts_KeyFunc (New (opts\<lparr>KeyFunc := None\<rparr>)) c = ClientIP c \<and>
   opts_Store (New (opts\<lparr>Store := None\<rparr>)) = newMemoryStore \<and>
   opts_OnLimitExceeded (New (opts\<lparr>OnLimitExceeded := None\<rparr>)) c l =
     c\<lparr>status := 429, contentType := ''text/plain; charset=utf-8'',
       body := body c @ ''Too Many Requests''\<rparr>"
  by (simp add: New_def String_def StatusTooManyRequests_def)

lemma Allow_NewLimiter:
  assumes "0 \<le> r" and "1 \<le> b"
  shows "fst (Allow now (NewLimiter r b))"
proof -
  have "0 \<le> seconds (int now) * r"
    using assms(1) by (simp add: seconds_nonneg)
  then have "refill now (NewLimiter r b) = of_int b"
    by (simp add: refill_def NewLimiter_def)
  then show ?thesis
    using assms(2) by (simp add: Allow_eq)
qed

lemma serve_redisStore:
  assumes "store s = redisStore" and "0 \<le> opts_Rate mw" and "1 \<le> opts_Burst mw"
  shows "serve mw d reqs s =
           Inr (map (\<lambda>(now, c). (True, d c)) reqs,
                s\<lparr>heap := heap s @ map (\<lambda>(now, c).
                       snd (Allow now (NewLimiter (opts_Rate mw) (opts_Burst mw)))) reqs\<rparr>)"
  using assms(1)
proof (induction reqs arbitrary: s)
  case Nil
  show ?case by simp
next
  case (Cons req reqs)
  obtain now c where req: "req = (now, c)" by (cases req)
  let ?l' = "snd (Allow now (NewLimiter (opts_Rate mw) (opts_Burst mw)))"
  let ?s' = "\<lparr>heap = heap s @ [?l'], store = redisStore\<rparr>"
  have h: "handler mw d now c s = Inr (True, d c, ?s')"
    using Allow_NewLimiter [OF assms(2,3), of now]
    by (simp add: handler_miss [where p = None] Cons.prems Let_def)
  have "store ?s' = redisStore" by simp
  from Cons.IH [OF this] show ?case
    by (simp add: req h Cons.prems)
qed


text \<open>
  Claim C10. With the Redis-backed store, a positive rate and a burst of at least 1, every
  request is admitted: each lookup misses, each request gets a limiter of its own, whose
  first \<open>Allow\<close> returns true, the rest of the chain runs on every context, and the
  reject handler is not called (the result does not depend on it).
\<close>

theorem redisStore_admits_every_request:
  assumes "Store opts = Some (NewRedisStore client)" and "0 < Rate opts" and "1 \<le> Burst opts"
  shows "serve (New opts) downstream reqs (initState (New opts)) =
           Inr (map (\<lambda>(now, c). (True, downstream c)) reqs,
                \<lparr>heap = map (\<lambda>(now, c).
                          snd (Allow now (NewLimiter (Rate opts) (Burst opts)))) reqs,
                 store = NewRedisStore client\<rparr>)"
proof -
  have "store (initState (New opts)) = redisStore"
    using assms(1) by (simp add: initState_def New_def NewRedisStore_def)
  moreover have "0 \<le> opts_Rate (New opts)" "1 \<le> opts_Burst (New opts)"
    using assms(2,3) by (simp_all add: New_sel)
  ultimately show ?thesis
    by (simp add: serve_redisStore New_sel) (simp add: initState_def NewRedisStore_def)
qed

theorem redisStore_admits_every_request_witness:
  "decisions
     (serve (New \<lparr>Rate = 100, Burst = 1, KeyFunc = None, Store = Some (NewRedisStore ()),
                  OnLimitExceeded = None\<rparr>) (\<lambda>c. c)
        [(0, \<lparr>ClientIP = ''10.0.0.1'', status = 200, contentType = [],
              body = [], aborted = False\<rparr>),
         (0, \<lparr>ClientIP = ''10.0.0.1'', status = 200, contentType = [],
              body = [], aborted = False\<rparr>)]
        (initState (New \<lparr>Rate = 100, Burst = 1, KeyFunc = None,
                         Store = Some (NewRedisStore ()), OnLimitExceeded = None\<rparr>)))
   = Some [True, True]"
  using redisStore_admits_every_request
    [of "\<lparr>Rate = 100, Burst = 1, KeyFunc = None, Store = Some (NewRedisStore ()),
          OnLimitExceeded = None\<rparr>" "()" "\<lambda>c. c"
        "[(0, \<lparr>ClientIP = ''10.0.0.1'', status = 200, contentType = [],
              body = [], aborted = False\<rparr>),
          (0, \<lparr>ClientIP = ''10.0.0.1'', status = 200, contentType = [],
              body = [], aborted = False\<rparr>)]"]
  by (simp add: decisions_def)

lemma memState_init: "opts_Store mw = newMemoryStore \<Longrightarrow> memState Map.empty (initState mw)"
  by (simp add: memState_def initState_def newMemoryStore_def)

lemma limiterFor_memState:
  assumes "memState m s"
  shows "limiterFor s k = (case m k of None \<Rightarrow> None | Some p \<Rightarrow> Some (heap s ! the p))"
proof (cases "m k")
  case None
  then show ?thesis using assms by (simp add: limiterFor_def memState_def)
next
  case (Some p)
  then obtain a where "p = Some a" "a < length (heap s)"
    using assms by (auto simp: memState_def)
  then show ?thesis using assms Some by (simp add: limiterFor_def memState_def deref_def)
qed

lemma handler_memState:
  assumes "memState m s"
  shows "\<exists>l0 s' m'.
           l0 \<in> insert (NewLimiter (opts_Rate mw) (opts_Burst mw)) (set (heap s)) \<and>
           l0 = (case limiterFor s (opts_KeyFunc mw c) of
                   None \<Rightarrow> NewLimiter (opts_Rate mw) (opts_Burst mw) | Some l \<Rightarrow> l) \<and>
           handler mw d now c s =
             Inr (fst (Allow now l0),
                  if fst (Allow now l0) then d c
                  else Abort (opts_OnLimitExceeded mw c (snd (Allow now l0))), s') \<and>
           memState m' s' \<and>
           set (heap s') \<subseteq> insert (snd (Allow now l0)) (set (heap s)) \<and>
           limiterFor s' (opts_KeyFunc mw c) = Some (snd (Allow now l0)) \<and>
           (\<forall>k. k \<noteq> opts_KeyFunc mw c \<longrightarrow> limiterFor s' k = limiterFor s k)"
proof (cases "m (opts_KeyFunc mw c)")
  case None
  let ?key = "opts_KeyFunc mw c"
  let ?l0 = "NewLimiter (opts_Rate mw) (opts_Burst mw)"
  let ?l' = "snd (Allow now ?l0)"
  let ?m' = "m(?key \<mapsto> Some (length (heap s)))"
  let ?s' = "\<lparr>heap = heap s @ [?l'], store = memoryStore ?m'\<rparr>"
  have st: "store s = memoryStore m" using assms by (simp add: memState_def)
  have valid: "\<And>k p. m k = Some p \<Longrightarrow> \<exists>a. p = Some a \<and> a < length (heap s)"
    using assms by (simp add: memState_def)
  have inj: "inj_on m (dom m)" using assms by (simp add: memState_def)
  have get: "Get (store s) ?key = (None, False)" using None st by simp
  have h: "handler mw d now c s =
      Inr (fst (Allow now ?l0),
           if fst (Allow now ?l0) then d c else Abort (opts_OnLimitExceeded mw c ?l'), ?s')"
    by (simp add: handler_miss [OF get] Let_def st)
  have fresh: "\<And>k. m k \<noteq> Some (Some (length (heap s)))"
    using valid by fastforce
  have inj': "inj_on ?m' (dom ?m')"
  proof (rule inj_onI)
    fix x y assume "x \<in> dom ?m'" "y \<in> dom ?m'" "?m' x = ?m' y"
    then show "x = y"
      using inj fresh by (auto simp: inj_on_def dom_def split: if_splits)
  qed
  have ms: "memState ?m' ?s'"
    unfolding memState_def using valid inj' by (auto simp: less_Suc_eq)
  have l0: "?l0 = (case limiterFor s ?key of None \<Rightarrow> ?l0 | Some l \<Rightarrow> l)"
    by (simp add: limiterFor_memState [OF assms] None)
  have key: "limiterFor ?s' ?key = Some ?l'"
    by (simp add: limiterFor_memState [OF ms])
  have others: "\<forall>k. k \<noteq> ?key \<longrightarrow> limiterFor ?s' k = limiterFor s k"
  proof (intro allI impI)
    fix k assume "k \<noteq> ?key"
    then show "limiterFor ?s' k = limiterFor s k"
      using valid [of k]
      by (auto simp: limiterFor_memState [OF ms] limiterFor_memState [OF assms] nth_append
               split: option.split)
  qed
  show ?thesis
    apply (rule exI [of _ ?l0], rule exI [of _ ?s'], rule exI [of _ ?m'])
    using l0 h ms key others by auto
next
  case (Some p)
  let ?key = "opts_KeyFunc mw c"
  have st: "store s = memoryStore m" using assms by (simp add: memState_def)
  have valid: "\<And>k p. m k = Some p \<Longrightarrow> \<exists>a. p = Some a \<and> a < length (heap s)"
    using assms by (simp add: memState_def)
  have inj: "inj_on m (dom m)" using assms by (simp add: memState_def)
  obtain a where p: "p = Some a" and a: "a < length (heap s)"
    using valid [OF Some] by blast
  let ?l0 = "heap s ! a"
  let ?l' = "snd (Allow now ?l0)"
  let ?s' = "s\<lparr>heap := (heap s)[a := ?l']\<rparr>"
  have get: "Get (store s) ?key = (Some a, True)" using Some st p by simp
  have h: "handler mw d now c s =
      Inr (fst (Allow now ?l0),
           if fst (Allow now ?l0) then d c else Abort (opts_OnLimitExceeded mw c ?l'), ?s')"
    by (simp add: handler_hit [OF get a] Let_def)
  have ms: "memState m ?s'"
    using assms by (simp add: memState_def)
  have l0: "?l0 = (case limiterFor s ?key of
                     None \<Rightarrow> NewLimiter (opts_Rate mw) (opts_Burst mw) | Some l \<Rightarrow> l)"
    by (simp add: limiterFor_memState [OF assms] Some p)
  have mem: "?l0 \<in> set (heap s)" using a by simp
  have sub: "set (heap ?s') \<subseteq> insert ?l' (set (heap s))"
    by (simp add: set_update_subset_insert)
  have key: "limiterFor ?s' ?key = Some ?l'"
    using a by (simp add: limiterFor_memState [OF ms] Some p)
  have others: "\<forall>k. k \<noteq> ?key \<longrightarrow> limiterFor ?s' k = limiterFor s k"
  proof (intro allI impI)
    fix k assume k: "k \<noteq> ?key"
    show "limiterFor ?s' k = limiterFor s k"
    proof (cases "m k")
      case None
      then show ?thesis
        by (simp add: limiterFor_memState [OF ms] limiterFor_memState [OF assms])
    next
      case (Some q)
      then obtain a' where q: "q = Some a'" using valid by blast
      have "m k \<noteq> m ?key"
        using inj k Some \<open>m ?key = Some p\<close> by (auto simp: inj_on_def dom_def)
      then have "a' \<noteq> a" using Some q \<open>m ?key = Some p\<close> p by auto
      then show ?thesis
        by (simp add: limiterFor_memState [OF ms] limiterFor_memState [OF assms] Some q)
    qed
  qed
  show ?thesis
    apply (rule exI [of _ ?l0], rule exI [of _ ?s'], rule exI [of _ m])
    using l0 mem h ms sub key others by auto
qed



lemma serve_memState:
  assumes "memState m s"
  shows "\<exists>rs s' m'.
           serve mw d reqs s = Inr (rs, s') \<and> memState m' s' \<and>
           (\<forall>k. (\<forall>req \<in> set reqs. opts_KeyFunc mw (snd req) \<noteq> k) \<longrightarrow>
                  limiterFor s' k = limiterFor s k)"
  using assms
proof (induction reqs arbitrary: m s)
  case Nil
  then show ?case by auto
next
  case (Cons req reqs)
  obtain now c where req: "req = (now, c)" by (cases req)
  from handler_memState [OF Cons.prems, of mw c d now]
  obtain ok c' s1 m1 where h: "handler mw d now c s = Inr (ok, c', s1)"
    and ms1: "memState m1 s1"
    and others: "\<forall>k. k \<noteq> opts_KeyFunc mw c \<longrightarrow> limiterFor s1 k = limiterFor s k"
    by blast
  from Cons.IH [OF ms1]
  obtain rs s' m' where sv: "serve mw d reqs s1 = Inr (rs, s')" and ms': "memState m' s'"
    and rest: "\<forall>k. (\<forall>req \<in> set reqs. opts_KeyFunc mw (snd req) \<noteq> k) \<longrightarrow>
                     limiterFor s' k = limiterFor s1 k"
    by blast
  have "serve mw d (req # reqs) s = Inr ((ok, c') # rs, s')"
    by (simp add: req h sv)
  moreover have "\<forall>k. (\<forall>r \<in> set (req # reqs). opts_KeyFunc mw (snd r) \<noteq> k) \<longrightarrow>
                     limiterFor s' k = limiterFor s k"
    using others rest by (auto simp: req)
  ultimately show ?case using ms' by blast
qed

lemma outcome_handler_memState:
  assumes "memState m s"
  shows "outcome (handler mw d now c s) =
     (let l0 = (case limiterFor s (opts_KeyFunc mw c) of
                  None \<Rightarrow> NewLimiter (opts_Rate mw) (opts_Burst mw) | Some l \<Rightarrow> l)
      in Some (fst (Allow now l0),
               if fst (Allow now l0) then d c
               else Abort (opts_OnLimitExceeded mw c (snd (Allow now l0)))))"
  using handler_memState [OF assms, of mw c d now]
  by (auto simp: outcome_def Let_def)

text \<open>
  Claim C8. On the in-memory store, in any state that the middleware can reach, requests
  under keys other than \<open>keyB\<close> leave the limiter stored under \<open>keyB\<close> as it was, and
  the next request under \<open>keyB\<close> gets the decision and the response it would have got
  without them.
\<close>

theorem per_key_isolation:
  assumes "opts_Store mw = newMemoryStore"
    and "serve mw downstream reqs0 (initState mw) = Inr (rs0, s)"
    and "\<forall>req \<in> set reqsA. opts_KeyFunc mw (snd req) \<noteq> keyB"
    and "opts_KeyFunc mw cB = keyB"
  shows "\<exists>rsA s'.
           serve mw downstream reqsA s = Inr (rsA, s') \<and>
           limiterFor s' keyB = limiterFor s keyB \<and>
           outcome (handler mw downstream now cB s') = outcome (handler mw downstream now cB s)"
proof -
  from serve_memState [OF memState_init [OF assms(1)], of mw downstream reqs0]
  obtain m where ms: "memState m s"
    using assms(2) by auto
  from serve_memState [OF ms, of mw downstream reqsA]
  obtain rsA s' m' where sv: "serve mw downstream reqsA s = Inr (rsA, s')"
    and ms': "memState m' s'"
    and same: "limiterFor s' keyB = limiterFor s keyB"
    using assms(3) by blast
  have "outcome (handler mw downstream now cB s') = outcome (handler mw downstream now cB s)"
    by (simp add: outcome_handler_memState [OF ms] outcome_handler_memState [OF ms']
                  assms(4) same)
  then show ?thesis using sv same by blast
qed

theorem per_key_isolation_witness:
  "\<exists>rsA s'.
     serve (New \<lparr>Rate = 100, Burst = 1, KeyFunc = None, Store = None, OnLimitExceeded = None\<rparr>)
       (\<lambda>c. c)
       [(0, \<lparr>ClientIP = ''10.0.0.1'', status = 0, contentType = [], body = [],
             aborted = False\<rparr>),
        (0, \<lparr>ClientIP = ''10.0.0.1'', status = 0, contentType = [], body = [],
             aborted = False\<rparr>)]
       \<lparr>heap = [\<lparr>rate = 100, burst = 1, tokens = 0, last_refill = 0\<rparr>],
        store = memoryStore (Map.empty(''10.0.0.2'' \<mapsto> Some 0))\<rparr> = Inr (rsA, s') \<and>
     limiterFor s' ''10.0.0.2'' =
       limiterFor \<lparr>heap = [\<lparr>rate = 100, burst = 1, tokens = 0, last_refill = 0\<rparr>],
                   store = memoryStore (Map.empty(''10.0.0.2'' \<mapsto> Some 0))\<rparr> ''10.0.0.2'' \<and>
     outcome (handler
        (New \<lparr>Rate = 100, Burst = 1, KeyFunc = None, Store = None, OnLimitExceeded = None\<rparr>)
        (\<lambda>c. c) 10000000
        \<lparr>ClientIP = ''10.0.0.2'', status = 0, contentType = [], body = [],
         aborted = False\<rparr> s') =
     outcome (handler
        (New \<lparr>Rate = 100, Burst = 1, KeyFunc = None, Store = None, OnLimitExceeded = None\<rparr>)
        (\<lambda>c. c) 10000000
        \<lparr>ClientIP = ''10.0.0.2'', status = 0, contentType = [], body = [],
         aborted = False\<rparr>
        \<lparr>heap = [\<lparr>rate = 100, burst = 1, tokens = 0, last_refill = 0\<rparr>],
         store = memoryStore (Map.empty(''10.0.0.2'' \<mapsto> Some 0))\<rparr>)"
proof -
  let ?mw = "New \<lparr>Rate = 100, Burst = 1, KeyFunc = None, Store = None, OnLimitExceeded = None\<rparr>"
  let ?cA = "\<lparr>ClientIP = ''10.0.0.1'', status = 0, contentType = [], body = [],
              aborted = False\<rparr>"
  let ?cB = "\<lparr>ClientIP = ''10.0.0.2'', status = 0, contentType = [], body = [],
              aborted = False\<rparr>"
  let ?s = "\<lparr>heap = [\<lparr>rate = 100, burst = 1, tokens = 0, last_refill = 0\<rparr>],
             store = memoryStore (Map.empty(''10.0.0.2'' \<mapsto> Some 0))\<rparr>"
  have h1: "opts_Store ?mw = newMemoryStore"
    by (simp add: New_def)
  have h2: "serve ?mw (\<lambda>c. c) [(0, ?cB)] (initState ?mw) = Inr ([(True, ?cB)], ?s)"
    by (simp add: handler_def New_def initState_def newMemoryStore_def deref_def
                  NewLimiter_def Allow_eq refill_def seconds_def)
  have h3: "\<forall>req \<in> set [(0, ?cA), (0, ?cA)]. opts_KeyFunc ?mw (snd req) \<noteq> ''10.0.0.2''"
    by (simp add: New_def)
  have h4: "opts_KeyFunc ?mw ?cB = ''10.0.0.2''"
    by (simp add: New_def)
  show ?thesis
    by (rule per_key_isolation [OF h1 h2 h3 h4])
qed










end
